theory Spec2Isabelle
  imports Main "HOL-Library.Word"
begin

section \<open>The kernel's intrusive thread queue (thor/kernel/src/thread.cpp)\<close>

text \<open>
  A \<open>ThreadQueue\<close> holds two pointers, \<open>p_front\<close> and \<open>p_back\<close>; the links live in
  the \<open>Thread\<close> objects themselves (\<open>p_nextInQueue\<close>, \<open>p_previousInQueue\<close>). A thread
  is identified by its address; a pointer is an optional address, \<open>None\<close> being
  \<open>nullptr\<close>. The state below is the queue object together with the link fields of
  every thread. Moving a shared pointer out of a field (\<open>frigg::move\<close>) leaves that
  field null. Dereferencing a null pointer and a failed \<open>assert\<close> are faults.
\<close>

type_synonym thread = nat
type_synonym thread_ptr = "thread option"

record kstate =
  p_front :: thread_ptr
  p_back :: thread_ptr
  p_nextInQueue :: "thread \<Rightarrow> thread_ptr"
  p_previousInQueue :: "thread \<Rightarrow> thread_ptr"

datatype fault = AssertFailed | NullDeref

text \<open>\<open>ThreadQueue::ThreadQueue()\<close>: both pointers are default-constructed; freshly
  constructed threads have null links (the \<open>Thread\<close> constructor leaves them default).\<close>

definition ThreadQueue_init :: kstate where
  "ThreadQueue_init =
     \<lparr>p_front = None, p_back = None,
      p_nextInQueue = (\<lambda>_. None), p_previousInQueue = (\<lambda>_. None)\<rparr>"

definition empty :: "kstate \<Rightarrow> bool" where
  "empty s = (p_front s = None)"

definition addBack :: "thread_ptr \<Rightarrow> kstate \<Rightarrow> fault + kstate" where
  "addBack thread s =
     (let back = p_back s;
          s1 = s\<lparr>p_back := thread\<rparr>
      in if empty s1 then Inr (s1\<lparr>p_front := thread\<rparr>)
         else (case thread of
                 None \<Rightarrow> Inl NullDeref
               | Some t \<Rightarrow>
                   let s2 = s1\<lparr>p_previousInQueue := (p_previousInQueue s1)(t := back)\<rparr>
                   in (case back of
                         None \<Rightarrow> Inl NullDeref
                       | Some b \<Rightarrow>
                           Inr (s2\<lparr>p_nextInQueue := (p_nextInQueue s2)(b := thread)\<rparr>))))"

definition removeFront :: "kstate \<Rightarrow> fault + (thread_ptr \<times> kstate)" where
  "removeFront s =
     (if empty s then Inl AssertFailed
      else (case p_front s of
              None \<Rightarrow> Inl NullDeref
            | Some f \<Rightarrow>
                let front = p_front s;
                    s1 = s\<lparr>p_front := None\<rparr>;
                    next = p_nextInQueue s1 f;
                    s2 = s1\<lparr>p_nextInQueue := (p_nextInQueue s1)(f := None)\<rparr>;
                    s3 = s2\<lparr>p_previousInQueue := (p_previousInQueue s2)(f := None)\<rparr>;
                    s4 = (case next of
                            None \<Rightarrow> s3\<lparr>p_back := None\<rparr>
                          | Some n \<Rightarrow>
                              s3\<lparr>p_previousInQueue := (p_previousInQueue s3)(n := None)\<rparr>)
                in Inr (front, s4\<lparr>p_front := next\<rparr>)))"

definition remove :: "thread_ptr \<Rightarrow> kstate \<Rightarrow> fault + (thread_ptr \<times> kstate)" where
  "remove thread s =
     (case thread of
        None \<Rightarrow> Inl NullDeref
      | Some t \<Rightarrow>
          let next = p_nextInQueue s t;
              s1 = s\<lparr>p_nextInQueue := (p_nextInQueue s)(t := None)\<rparr>;
              previous = p_previousInQueue s1 t;
              s2 = s1\<lparr>p_previousInQueue := (p_previousInQueue s1)(t := None)\<rparr>
          in (case (if p_back s2 = thread then Inr (s2\<lparr>p_back := previous\<rparr>)
                    else (case next of
                            None \<Rightarrow> Inl NullDeref
                          | Some n \<Rightarrow>
                              Inr (s2\<lparr>p_previousInQueue :=
                                         (p_previousInQueue s2)(n := previous)\<rparr>))) of
                Inl e \<Rightarrow> Inl e
              | Inr s3 \<Rightarrow>
                  if p_front s3 = thread then Inr (p_front s3, s3\<lparr>p_front := next\<rparr>)
                  else (case previous of
                          None \<Rightarrow> Inl NullDeref
                        | Some p \<Rightarrow>
                            Inr (p_nextInQueue s3 p,
                                 s3\<lparr>p_nextInQueue := (p_nextInQueue s3)(p := next)\<rparr>))))"

text \<open>Drivers for whole runs: enqueue a list of threads in order, and dequeue from the
  front until the queue is empty (at most \<open>n\<close> times).\<close>

fun addBack_all :: "thread_ptr list \<Rightarrow> kstate \<Rightarrow> fault + kstate" where
  "addBack_all [] s = Inr s"
| "addBack_all (t # ts) s =
     (case addBack t s of Inl e \<Rightarrow> Inl e | Inr s' \<Rightarrow> addBack_all ts s')"

fun drain :: "nat \<Rightarrow> kstate \<Rightarrow> fault + thread_ptr list" where
  "drain 0 s = Inr []"
| "drain (Suc n) s =
     (if empty s then Inr []
      else (case removeFront s of
              Inl e \<Rightarrow> Inl e
            | Inr (t, s') \<Rightarrow>
                (case drain n s' of Inl e \<Rightarrow> Inl e | Inr ts \<Rightarrow> Inr (t # ts))))"

definition fifo_run :: "thread_ptr list \<Rightarrow> fault + thread_ptr list" where
  "fifo_run ts =
     (case addBack_all ts ThreadQueue_init of
        Inl e \<Rightarrow> Inl e
      | Inr s \<Rightarrow> drain (length ts) s)"

text \<open>The abstraction: the state represents the list \<open>xs\<close> when following
  \<open>p_nextInQueue\<close> from \<open>p_front\<close> visits \<open>xs\<close> and ends in null, following
  \<open>p_previousInQueue\<close> from \<open>p_back\<close> visits \<open>xs\<close> backwards and ends in null, and no
  thread occurs twice.\<close>

primrec chain :: "(thread \<Rightarrow> thread_ptr) \<Rightarrow> thread_ptr \<Rightarrow> thread list \<Rightarrow> bool" where
  "chain h p [] = (p = None)"
| "chain h p (x # xs) = (p = Some x \<and> chain h (h x) xs)"

definition queue_repr :: "kstate \<Rightarrow> thread list \<Rightarrow> bool" where
  "queue_repr s xs =
     (distinct xs \<and> chain (p_nextInQueue s) (p_front s) xs
      \<and> chain (p_previousInQueue s) (p_back s) (rev xs))"

definition unlinked :: "kstate \<Rightarrow> thread \<Rightarrow> bool" where
  "unlinked s t = (p_nextInQueue s t = None \<and> p_previousInQueue s t = None)"

definition queue123 :: kstate where
  "queue123 =
     \<lparr>p_front = Some 1, p_back = Some 3,
      p_nextInQueue = (\<lambda>_. None)(1 := Some 2, 2 := Some 3),
      p_previousInQueue = (\<lambda>_. None)(2 := Some 1, 3 := Some 2)\<rparr>"

section \<open>Event delivery of a DRM file (core/drm/include/core/drm/core.hpp)\<close>

text \<open>
  \<open>struct Event\<close> and the event-queue fields of \<open>struct File\<close> are taken from the
  header: \<open>_isBlocking\<close>, \<open>_pendingEvents\<close> (a \<open>std::deque<Event>\<close>) and
  \<open>_eventSequence\<close>. The leading underscore of the field names is dropped.
\<close>

record Event =
  cookie :: "64 word"
  crtcId :: "32 word"
  timestamp :: "64 word"

record File =
  isBlocking :: bool
  pendingEvents :: "Event list"
  eventSequence :: "64 word"

text \<open>A newly constructed \<open>File\<close>: the header's in-class initialiser is
  \<open>bool _isBlocking = true\<close>, the deque is default-constructed (empty), and
  \<open>_eventSequence\<close> has no initialiser in the header, so its first value is a
  parameter.\<close>

definition File_new :: "64 word \<Rightarrow> File" where
  "File_new seq0 = \<lparr>isBlocking = True, pendingEvents = [], eventSequence = seq0\<rparr>"

text \<open>Modelled from the spec: the body of \<open>File::setBlocking\<close> is missing from the
  sources (core.hpp declares it only). The spec calls the field the File's
  blocking-mode flag; the setter stores its argument there.\<close>

definition setBlocking :: "bool \<Rightarrow> File \<Rightarrow> File" where
  "setBlocking blocking f = f\<lparr>isBlocking := blocking\<rparr>"

text \<open>Modelled from the spec: the body of \<open>File::postEvent\<close> is missing from the
  sources. Spec: "appends to the pending-event deque and wakes any waiter".\<close>

definition postEvent :: "Event \<Rightarrow> File \<Rightarrow> File" where
  "postEvent event f = f\<lparr>pendingEvents := pendingEvents f @ [event]\<rparr>"

text \<open>What a \<open>read\<close> call comes to: the caller is suspended, the call fails with a
  would-block condition, or pending events are handed out.\<close>

datatype ReadResult = Suspended | WouldBlock | Delivered "Event list"

text \<open>Modelled from the spec: the body of \<open>File::read\<close> is missing from the sources.
  Spec: "if blocking mode is on and the queue is empty, suspends until an event
  arrives or cancellation; if non-blocking and empty, fails immediately with a
  would-block condition. Drains in strict arrival order; the sequence counter
  increases monotonically per successful read". A suspended read leaves the File as
  it is. How many events one call hands out is not fixed by the spec: the argument
  \<open>n\<close> stands for the number of serialised events the caller's buffer holds, and a
  successful read hands out the first \<open>n\<close> pending events.\<close>

definition read :: "nat \<Rightarrow> File \<Rightarrow> ReadResult \<times> File" where
  "read n f =
     (if pendingEvents f = []
      then (if isBlocking f then (Suspended, f) else (WouldBlock, f))
      else (Delivered (take n (pendingEvents f)),
            f\<lparr>pendingEvents := drop n (pendingEvents f),
              eventSequence := eventSequence f + 1\<rparr>))"

text \<open>The calls a client can make on the event side of a File, and a run of them.\<close>

datatype File_op = OpSetBlocking bool | OpPostEvent Event | OpRead nat

fun step :: "File_op \<Rightarrow> File \<Rightarrow> File" where
  "step (OpSetBlocking b) f = setBlocking b f"
| "step (OpPostEvent e) f = postEvent e f"
| "step (OpRead n) f = snd (read n f)"

fun run :: "File_op list \<Rightarrow> File \<Rightarrow> File" where
  "run [] f = f"
| "run (c # cs) f = run cs (step c f)"


section \<open>Proofs: the thread queue\<close>

subsection \<open>Chains of links\<close>

lemma chain_upd: "u \<notin> set xs \<Longrightarrow> chain (h(u := v)) p xs = chain h p xs"
  by (induction xs arbitrary: p) auto

lemma chain_link_after:
  "chain h p (as @ t # bs) \<Longrightarrow> h t = (case bs of [] \<Rightarrow> None | b # _ \<Rightarrow> Some b)"
  by (induction as arbitrary: p) (auto split: list.splits)

lemma chain_snoc_upd:
  "distinct (xs @ [t]) \<Longrightarrow> xs \<noteq> [] \<Longrightarrow> chain h p xs \<Longrightarrow> h t = None
   \<Longrightarrow> chain (h(last xs := Some t)) p (xs @ [t])"
proof (induction xs arbitrary: p)
  case Nil
  then show ?case by simp
next
  case (Cons x xs)
  show ?case
  proof (cases "xs = []")
    case True
    with Cons.prems show ?thesis by auto
  next
    case False
    from Cons.prems have "x \<noteq> last xs" using False by auto
    with Cons False show ?thesis by auto
  qed
qed

lemma chain_splice:
  "distinct (as @ a # t # bs) \<Longrightarrow> chain h p (as @ a # t # bs)
   \<Longrightarrow> chain ((h(t := None))(a := h t)) p (as @ a # bs)"
proof (induction as arbitrary: p)
  case Nil
  then have "a \<notin> set bs" "t \<notin> set bs" "a \<noteq> t" "chain h (h t) bs" "p = Some a"
    by auto
  then have "chain ((h(t := None))(a := h t)) (h t) bs" "p = Some a"
    by (metis chain_upd)+
  then show ?case by (simp only: append_Nil chain.simps fun_upd_same simp_thms)
next
  case (Cons x as)
  from Cons.prems have "x \<noteq> a" "x \<noteq> t" "p = Some x" by auto
  moreover have "distinct (as @ a # t # bs)" "chain h (h x) (as @ a # t # bs)"
    using Cons.prems by simp_all
  then have "chain ((h(t := None))(a := h t)) (h x) (as @ a # bs)"
    by (rule Cons.IH)
  ultimately show ?case by (simp del: fun_upd_apply add: fun_upd_other)
qed

lemma repr_empty: "queue_repr s xs \<Longrightarrow> empty s = (xs = [])"
  by (cases xs) (auto simp: queue_repr_def empty_def)

lemma repr_back: "queue_repr s xs \<Longrightarrow> xs \<noteq> [] \<Longrightarrow> p_back s = Some (last xs)"
  by (cases xs rule: rev_cases) (auto simp: queue_repr_def)

lemma addBack_repr:
  assumes "queue_repr s xs" "t \<notin> set xs" "unlinked s t"
  shows "\<exists>s'. addBack (Some t) s = Inr s' \<and> queue_repr s' (xs @ [t])
            \<and> (\<forall>u. u \<notin> set xs \<and> u \<noteq> t \<longrightarrow> unlinked s' u = unlinked s u)"
proof (cases "xs = []")
  case True
  with assms show ?thesis
    by (auto simp: addBack_def queue_repr_def empty_def unlinked_def)
next
  case False
  then have b: "p_back s = Some (last xs)" using assms(1) repr_back by blast
  have f: "p_front s \<noteq> None" using False assms(1) repr_empty[of s xs] by (simp add: empty_def)
  have d: "distinct (xs @ [t])" using assms by (simp add: queue_repr_def)
  have n: "chain ((p_nextInQueue s)(last xs := Some t)) (p_front s) (xs @ [t])"
    using chain_snoc_upd[OF d False] assms by (simp add: queue_repr_def unlinked_def)
  have p: "chain ((p_previousInQueue s)(t := Some (last xs))) (Some t) (rev (xs @ [t]))"
    using assms by (simp add: queue_repr_def chain_upd b)
  have l: "last xs \<in> set xs" using False by simp
  show ?thesis using f b d n p assms(2) l
    by (auto simp: addBack_def queue_repr_def empty_def Let_def unlinked_def)
qed

lemma removeFront_repr:
  assumes "queue_repr s (x # xs)"
  shows "\<exists>s'. removeFront s = Inr (Some x, s') \<and> queue_repr s' xs \<and> unlinked s' x
            \<and> (\<forall>u. u \<notin> set (x # xs) \<longrightarrow> unlinked s' u = unlinked s u)"
proof -
  have f: "p_front s = Some x" using assms by (simp add: queue_repr_def)
  have d: "distinct (x # xs)" using assms by (simp add: queue_repr_def)
  have n: "chain ((p_nextInQueue s)(x := None)) (p_nextInQueue s x) xs"
    using assms by (simp add: queue_repr_def chain_upd)
  show ?thesis
  proof (cases xs)
    case Nil
    with assms f show ?thesis
      by (auto simp: removeFront_def queue_repr_def empty_def unlinked_def)
  next
    case (Cons y ys)
    have nx: "p_nextInQueue s x = Some y" using assms Cons by (simp add: queue_repr_def)
    have pc: "chain (p_previousInQueue s) (p_back s) (rev ys @ y # x # [])"
      using assms Cons by (simp add: queue_repr_def)
    have px: "p_previousInQueue s x = None"
      using chain_link_after[of "p_previousInQueue s" "p_back s" "rev ys @ [y]" x "[]"] pc by simp
    have dd: "distinct (rev ys @ y # x # [])" using d Cons by auto
    have "chain (((p_previousInQueue s)(x := None))(y := None)) (p_back s) (rev ys @ [y])"
      using chain_splice[OF dd pc] px by simp
    with f d n nx Cons show ?thesis
      by (auto simp: removeFront_def queue_repr_def empty_def unlinked_def)
  qed
qed


lemma chain_front_iff:
  "distinct (as @ t # bs) \<Longrightarrow> chain h p (as @ t # bs) \<Longrightarrow> (p = Some t) = (as = [])"
  by (cases as) auto

lemma chain_link_before:
  "chain h p (rev (as @ t # bs)) \<Longrightarrow> h t = (if as = [] then None else Some (last as))"
  using chain_link_after[of h p "rev bs" t "rev as"]
  by (cases as rule: rev_cases) auto

lemma remove_repr:
  assumes r: "queue_repr s xs" and t: "t \<in> set xs"
  shows "\<exists>s'. remove (Some t) s = Inr (Some t, s') \<and> queue_repr s' (remove1 t xs)
            \<and> unlinked s' t
            \<and> (\<forall>u. u \<notin> set xs \<longrightarrow> unlinked s' u = unlinked s u)"
proof -
  from t obtain as bs where xs: "xs = as @ t # bs" and ta: "t \<notin> set as"
    by (auto dest: split_list_first)
  have d: "distinct (as @ t # bs)" using r xs by (simp add: queue_repr_def)
  have nc: "chain (p_nextInQueue s) (p_front s) (as @ t # bs)"
    using r xs by (simp add: queue_repr_def)
  have pc: "chain (p_previousInQueue s) (p_back s) (rev bs @ t # rev as)"
    using r xs by (simp add: queue_repr_def)
  have dr: "distinct (rev bs @ t # rev as)" using d by auto
  have rm: "remove1 t xs = as @ bs" using xs ta by (simp add: remove1_append)
  have nt: "p_nextInQueue s t = (case bs of [] \<Rightarrow> None | b # _ \<Rightarrow> Some b)"
    using chain_link_after[OF nc] .
  have pt: "p_previousInQueue s t = (if as = [] then None else Some (last as))"
    using chain_link_before[of "p_previousInQueue s" "p_back s" as t bs] pc by simp
  have fr: "(p_front s = Some t) = (as = [])" using chain_front_iff[OF d nc] .
  have bk: "(p_back s = Some t) = (bs = [])"
    using chain_front_iff[OF dr pc] by simp
  have pl: "p_nextInQueue s (last as) = Some t" if "as \<noteq> []"
  proof -
    from that have "as @ t # bs = butlast as @ last as # t # bs" by simp
    with nc have "chain (p_nextInQueue s) (p_front s) (butlast as @ last as # t # bs)"
      by simp
    from chain_link_after[OF this] show ?thesis by simp
  qed
  \<comment> \<open>the forward chain after unlinking\<close>
  have n': "chain (if as = [] then (p_nextInQueue s)(t := None)
                   else ((p_nextInQueue s)(t := None))(last as := p_nextInQueue s t))
                  (if as = [] then p_nextInQueue s t else p_front s) (as @ bs)"
  proof (cases as rule: rev_cases)
    case Nil
    with d nc show ?thesis by (simp add: chain_upd)
  next
    case (snoc as' a)
    with d nc chain_splice[of as' a t bs "p_nextInQueue s" "p_front s"] show ?thesis by simp
  qed
  \<comment> \<open>the backward chain after unlinking\<close>
  have p': "chain (if bs = [] then (p_previousInQueue s)(t := None)
                   else ((p_previousInQueue s)(t := None))(hd bs := p_previousInQueue s t))
                  (if bs = [] then p_previousInQueue s t else p_back s) (rev bs @ rev as)"
  proof (cases bs)
    case Nil
    with dr pc show ?thesis by (simp add: chain_upd)
  next
    case (Cons b bs')
    with dr pc chain_splice[of "rev bs'" b t "rev as" "p_previousInQueue s" "p_back s"]
    show ?thesis by simp
  qed
  show ?thesis
  proof (cases "bs = []")
    case bs: True
    show ?thesis
    proof (cases "as = []")
      case True
      with bs d n' p' nt pt fr bk xs rm show ?thesis
        by (auto simp: remove_def queue_repr_def unlinked_def)
    next
      case False
      then have "last as \<in> set as" by simp
      with False bs d n' p' nt pt fr bk xs rm ta pl show ?thesis
        by (auto simp: remove_def queue_repr_def unlinked_def)
    qed
  next
    case bs: False
    then obtain b bs' where bb: "bs = b # bs'" by (cases bs) auto
    show ?thesis
    proof (cases "as = []")
      case True
      with bs bb d n' p' nt pt fr bk xs rm show ?thesis
        by (auto simp: remove_def queue_repr_def unlinked_def)
    next
      case False
      then have "last as \<in> set as" by simp
      with False bs bb d n' p' nt pt fr bk xs rm ta pl show ?thesis
        by (auto simp: remove_def queue_repr_def unlinked_def)
    qed
  qed
qed

lemma addBack_all_repr:
  "queue_repr s xs \<Longrightarrow> distinct (xs @ ts) \<Longrightarrow> \<forall>t\<in>set ts. unlinked s t
   \<Longrightarrow> \<exists>s'. addBack_all (map Some ts) s = Inr s' \<and> queue_repr s' (xs @ ts)
            \<and> (\<forall>u. u \<notin> set (xs @ ts) \<longrightarrow> unlinked s' u = unlinked s u)"
proof (induction ts arbitrary: s xs)
  case Nil
  then show ?case by simp
next
  case (Cons t ts)
  from Cons.prems have tx: "t \<notin> set xs" and ut: "unlinked s t" by auto
  from addBack_repr[OF Cons.prems(1) tx ut] obtain s1 where
    a: "addBack (Some t) s = Inr s1" and r1: "queue_repr s1 (xs @ [t])"
    and fr: "\<forall>u. u \<notin> set xs \<and> u \<noteq> t \<longrightarrow> unlinked s1 u = unlinked s u" by blast
  have d1: "distinct ((xs @ [t]) @ ts)" using Cons.prems(2) by simp
  have u1: "\<forall>u\<in>set ts. unlinked s1 u" using fr Cons.prems(2,3) by auto
  from Cons.IH[OF r1 d1 u1] obtain s' where
    b: "addBack_all (map Some ts) s1 = Inr s'" and r': "queue_repr s' ((xs @ [t]) @ ts)"
    and fr': "\<forall>u. u \<notin> set ((xs @ [t]) @ ts) \<longrightarrow> unlinked s' u = unlinked s1 u" by blast
  from a b have "addBack_all (map Some (t # ts)) s = Inr s'" by simp
  moreover from r' have "queue_repr s' (xs @ t # ts)" by simp
  moreover from fr fr' have "\<forall>u. u \<notin> set (xs @ t # ts) \<longrightarrow> unlinked s' u = unlinked s u"
    by auto
  ultimately show ?case by blast
qed

lemma drain_repr:
  "queue_repr s xs \<Longrightarrow> length xs \<le> n \<Longrightarrow> drain n s = Inr (map Some xs)"
proof (induction n arbitrary: s xs)
  case 0
  then show ?case by simp
next
  case (Suc n)
  show ?case
  proof (cases xs)
    case Nil
    with Suc.prems repr_empty[of s xs] show ?thesis by simp
  next
    case (Cons y ys)
    with Suc.prems repr_empty[of s xs] have ne: "\<not> empty s" by simp
    from removeFront_repr[of s y ys] Suc.prems(1) Cons obtain s' where
      rf: "removeFront s = Inr (Some y, s')" and r': "queue_repr s' ys" by blast
    have "drain n s' = Inr (map Some ys)" using Suc.IH[OF r'] Suc.prems(2) Cons by simp
    with ne rf Cons show ?thesis by simp
  qed
qed

lemma init_repr: "queue_repr ThreadQueue_init []"
  by (simp add: queue_repr_def ThreadQueue_init_def)

lemma init_unlinked: "unlinked ThreadQueue_init t"
  by (simp add: unlinked_def ThreadQueue_init_def)

lemma fifo_run_distinct:
  assumes "distinct ts"
  shows "fifo_run (map Some ts) = Inr (map Some ts)"
proof -
  from addBack_all_repr[OF init_repr, of ts] assms init_unlinked obtain s' where
    a: "addBack_all (map Some ts) ThreadQueue_init = Inr s'" and r: "queue_repr s' ts"
    by auto
  from drain_repr[OF r, of "length ts"] a show ?thesis by (simp add: fifo_run_def)
qed

subsection \<open>The queue discipline\<close>

text \<open>
  Claim C9, as amended. Enqueuing pairwise distinct, non-null threads on a new queue
  and then dequeuing from the front until the queue is empty returns the threads in
  insertion order. More generally, let the state represent the queue \<open>xs\<close>. Then
  \<open>empty()\<close> is true exactly when \<open>xs\<close> is empty. Adding, in order, non-null threads
  that are pairwise distinct, not in the queue and unlinked (both link fields null)
  succeeds and appends them at the back. On a non-empty queue \<open>removeFront()\<close> returns
  the oldest thread and leaves the rest in order. For a thread \<open>t\<close> of the queue,
  \<open>remove(t)\<close> returns \<open>t\<close> and leaves the other threads in their order. A removed
  thread is unlinked again, and no operation changes whether a thread outside the
  queue is unlinked. Dequeuing until the queue is empty returns \<open>xs\<close> in order.
\<close>

theorem ThreadQueue_fifo:
  "(distinct ts \<longrightarrow> fifo_run (map Some ts) = Inr (map Some ts))
   \<and> (queue_repr s xs \<longrightarrow>
        (empty s \<longleftrightarrow> xs = [])
      \<and> (\<forall>us. distinct (xs @ us) \<and> (\<forall>t\<in>set us. unlinked s t) \<longrightarrow>
            (\<exists>s'. addBack_all (map Some us) s = Inr s' \<and> queue_repr s' (xs @ us)
                  \<and> (\<forall>u. u \<notin> set (xs @ us) \<longrightarrow> unlinked s' u = unlinked s u)))
      \<and> (xs \<noteq> [] \<longrightarrow>
            (\<exists>s'. removeFront s = Inr (Some (hd xs), s') \<and> queue_repr s' (tl xs)
                  \<and> unlinked s' (hd xs)
                  \<and> (\<forall>u. u \<notin> set xs \<longrightarrow> unlinked s' u = unlinked s u)))
      \<and> (\<forall>t\<in>set xs.
            \<exists>s'. remove (Some t) s = Inr (Some t, s') \<and> queue_repr s' (remove1 t xs)
                 \<and> unlinked s' t
                 \<and> (\<forall>u. u \<notin> set xs \<longrightarrow> unlinked s' u = unlinked s u))
      \<and> drain (length xs) s = Inr (map Some xs))"
proof (intro conjI allI impI ballI)
  assume "distinct ts"
  then show "fifo_run (map Some ts) = Inr (map Some ts)" by (rule fifo_run_distinct)
next
  assume "queue_repr s xs"
  then show "empty s \<longleftrightarrow> xs = []" by (rule repr_empty)
next
  fix us
  assume r: "queue_repr s xs"
    and "distinct (xs @ us) \<and> (\<forall>t\<in>set us. unlinked s t)"
  then show "\<exists>s'. addBack_all (map Some us) s = Inr s' \<and> queue_repr s' (xs @ us)
                \<and> (\<forall>u. u \<notin> set (xs @ us) \<longrightarrow> unlinked s' u = unlinked s u)"
    using addBack_all_repr[OF r, of us] by blast
next
  assume r: "queue_repr s xs" and "xs \<noteq> []"
  then obtain y ys where xs: "xs = y # ys" by (cases xs) auto
  from removeFront_repr[of s y ys] r xs
  show "\<exists>s'. removeFront s = Inr (Some (hd xs), s') \<and> queue_repr s' (tl xs)
             \<and> unlinked s' (hd xs)
             \<and> (\<forall>u. u \<notin> set xs \<longrightarrow> unlinked s' u = unlinked s u)"
    by auto
next
  fix t
  assume r: "queue_repr s xs" and t: "t \<in> set xs"
  from remove_repr[OF r t]
  show "\<exists>s'. remove (Some t) s = Inr (Some t, s') \<and> queue_repr s' (remove1 t xs)
             \<and> unlinked s' t
             \<and> (\<forall>u. u \<notin> set xs \<longrightarrow> unlinked s' u = unlinked s u)"
    by blast
next
  assume r: "queue_repr s xs"
  show "drain (length xs) s = Inr (map Some xs)"
    using drain_repr[OF r] by simp
qed

lemma queue123_repr: "queue_repr queue123 [1, 2, 3]"
  by (simp add: queue_repr_def queue123_def)

theorem ThreadQueue_fifo_witness:
  "fifo_run [Some 1, Some 2, Some 3] = Inr [Some 1, Some 2, Some 3]
   \<and> queue_repr queue123 [1, 2, 3]
   \<and> \<not> empty queue123
   \<and> (\<exists>s'. addBack_all [Some 4, Some 5] queue123 = Inr s' \<and> queue_repr s' [1, 2, 3, 4, 5])
   \<and> (\<exists>s'. removeFront queue123 = Inr (Some 1, s') \<and> queue_repr s' [2, 3])
   \<and> (\<exists>s'. remove (Some 2) queue123 = Inr (Some 2, s') \<and> queue_repr s' [1, 3])
   \<and> drain 3 queue123 = Inr [Some 1, Some 2, Some 3]"
proof -
  note g = ThreadQueue_fifo[of "[1, 2, 3]" queue123 "[1, 2, 3]"]
  note f = g[THEN conjunct2, THEN mp, OF queue123_repr]
  note f1 = f[THEN conjunct1]
  note f2 = f[THEN conjunct2, THEN conjunct1]
  note f3 = f[THEN conjunct2, THEN conjunct2, THEN conjunct1]
  note f4 = f[THEN conjunct2, THEN conjunct2, THEN conjunct2, THEN conjunct1]
  note f5 = f[THEN conjunct2, THEN conjunct2, THEN conjunct2, THEN conjunct2]
  have d: "distinct [1, 2, 3 :: nat]" by simp
  have u: "distinct ([1, 2, 3] @ [4, 5 :: nat]) \<and> (\<forall>t\<in>set [4, 5]. unlinked queue123 t)"
    by (simp add: unlinked_def queue123_def)
  have m: "(2 :: nat) \<in> set [1, 2, 3]" by simp
  from g[THEN conjunct1, THEN mp, OF d]
  have c0: "fifo_run [Some 1, Some 2, Some 3] = Inr [Some 1, Some 2, Some 3]"
    by (simp only: list.map)
  from f1 have c1: "\<not> empty queue123" by simp
  from f2[THEN spec, of "[4, 5]"] u
  have c2: "\<exists>s'. addBack_all [Some 4, Some 5] queue123 = Inr s'
               \<and> queue_repr s' [1, 2, 3, 4, 5]"
    by auto
  from f3
  have c3: "\<exists>s'. removeFront queue123 = Inr (Some 1, s') \<and> queue_repr s' [2, 3]"
    by auto
  from f4[THEN bspec, OF m]
  have c4: "\<exists>s'. remove (Some 2) queue123 = Inr (Some 2, s') \<and> queue_repr s' [1, 3]"
    by auto
  have l: "length [1, 2, 3 :: nat] = 3" by simp
  from f5[unfolded l] have c5: "drain 3 queue123 = Inr [Some 1, Some 2, Some 3]"
    by (simp only: list.map)
  from c0 queue123_repr c1 c2 c3 c4 c5 show ?thesis by (intro conjI)
qed

text \<open>
  As stated, for every sequence of \<open>addBack\<close> operations, the claim fails: a thread
  that is already in the queue is linked in place and not queued a second time.
  After \<open>addBack(a)\<close>, \<open>addBack(a)\<close>, \<open>addBack(b)\<close> on a new queue the queue hands out
  \<open>a\<close>, \<open>b\<close> and is empty.
\<close>

theorem ThreadQueue_fifo_counterexample:
  "fifo_run [Some 0, Some 0, Some 1] = Inr [Some 0, Some 1]
   \<and> fifo_run [Some 0, Some 0, Some 1] \<noteq> Inr [Some 0, Some 0, Some 1]"
  by (simp add: fifo_run_def ThreadQueue_init_def addBack_def removeFront_def empty_def
        Let_def)

section \<open>Proofs: event delivery of a DRM file\<close>

lemma step_isBlocking:
  "c \<noteq> OpSetBlocking False \<Longrightarrow> isBlocking f \<Longrightarrow> isBlocking (step c f)"
  by (cases c) (auto simp: setBlocking_def postEvent_def read_def)

lemma run_isBlocking:
  "OpSetBlocking False \<notin> set cs \<Longrightarrow> isBlocking f \<Longrightarrow> isBlocking (run cs f)"
proof (induction cs arbitrary: f)
  case Nil
  then show ?case by simp
next
  case (Cons c cs)
  from Cons.prems have "c \<noteq> OpSetBlocking False" "OpSetBlocking False \<notin> set cs"
    by auto
  with Cons.prems(2) Cons.IH show ?case by (simp add: step_isBlocking)
qed

text \<open>
  Claim C10. A newly constructed File is in blocking mode. After any run of
  \<open>setBlocking\<close>, \<open>postEvent\<close> and \<open>read\<close> calls on it in which \<open>setBlocking(false)\<close>
  does not occur, the File is still in blocking mode, and a \<open>read\<close> that finds the
  event queue empty suspends: it does not report a would-block condition and leaves
  the File as it is.
\<close>

theorem File_starts_blocking:
  assumes "OpSetBlocking False \<notin> set cs"
  shows "isBlocking (File_new seq0)
    \<and> isBlocking (run cs (File_new seq0))
    \<and> (pendingEvents (run cs (File_new seq0)) = [] \<longrightarrow>
          read n (run cs (File_new seq0)) = (Suspended, run cs (File_new seq0)))"
proof -
  have b0: "isBlocking (File_new seq0)" by (simp add: File_new_def)
  from run_isBlocking[OF assms b0] have b: "isBlocking (run cs (File_new seq0))" .
  from b0 b show ?thesis by (simp add: read_def)
qed

theorem File_starts_blocking_witness:
  "OpSetBlocking False \<notin>
     set [OpPostEvent \<lparr>cookie = 7, crtcId = 1, timestamp = 0\<rparr>, OpRead 1, OpSetBlocking True]
   \<and> pendingEvents
        (run [OpPostEvent \<lparr>cookie = 7, crtcId = 1, timestamp = 0\<rparr>, OpRead 1, OpSetBlocking True]
           (File_new 0)) = []
   \<and> fst (read 1
        (run [OpPostEvent \<lparr>cookie = 7, crtcId = 1, timestamp = 0\<rparr>, OpRead 1, OpSetBlocking True]
           (File_new 0))) = Suspended"
proof -
  let ?cs = "[OpPostEvent \<lparr>cookie = 7, crtcId = 1, timestamp = 0\<rparr>, OpRead 1, OpSetBlocking True]"
  have h: "OpSetBlocking False \<notin> set ?cs" by simp
  have e: "pendingEvents (run ?cs (File_new 0)) = []"
    by (simp add: File_new_def postEvent_def read_def setBlocking_def)
  from File_starts_blocking[OF h, of 0 1] e
  have "read 1 (run ?cs (File_new 0)) = (Suspended, run ?cs (File_new 0))" by blast
  with h e show ?thesis by simp
qed

end
